theory Spec2Isabelle
  imports Complex_Main "HOL-Library.Multiset"
begin

section \<open>Data model (db.js, schema v1)\<close>

text \<open>
  JavaScript numbers that hold times, intervals and ease factors are modelled as
  \<^typ>\<open>real\<close>; the counters \<open>reps\<close> and \<open>lapses\<close>, which the code only resets to 0 or
  increments by 1, are \<^typ>\<open>nat\<close>. Rounding of IEEE doubles is not modelled: the
  properties below rest on comparisons and on \<open>Math.max\<close>/\<open>Math.min\<close>, which are exact.
  Identifiers and text fields are \<^typ>\<open>string\<close>.
\<close>

record review_state =
  due :: real
  intervalDays :: real
  ease :: real
  reps :: nat
  lapses :: nat

record deck =
  d_id :: string
  d_name :: string
  d_createdAt :: real

record card =
  c_id :: string
  deckId :: string
  english :: string
  german :: string
  article :: string
  plural :: string
  example :: string
  c_notes :: string
  createdAt :: real
  srs :: review_state

text \<open>The \<open>fields\<close> object of \<open>addCard\<close>/\<open>updateCard\<close>: the optional entries may be missing.\<close>

record fields =
  f_english :: string
  f_german :: string
  f_article :: "string option"
  f_plural :: "string option"
  f_example :: "string option"
  f_notes :: "string option"

section \<open>Ambient platform state\<close>

text \<open>
  \<open>Date.now()\<close> and \<open>Math.random()\<close> are read from the environment, not passed in.
  \<open>dateNow e k\<close> is what the \<open>k\<close>-th call of \<open>Date.now()\<close> inside one operation returns,
  \<open>mathRandom e k\<close> what the \<open>k\<close>-th call of \<open>Math.random()\<close> returns, and \<open>toString16\<close>
  stands for \<open>Number.prototype.toString(16)\<close>.
\<close>

record env =
  dateNow :: "nat \<Rightarrow> real"
  mathRandom :: "nat \<Rightarrow> real"
  toString16 :: "real \<Rightarrow> string"

text \<open>
  \<open>Math.random()\<close> returns a number in \<open>[0, 1)\<close>: \<open>unit_random rnd n\<close> says so of
  the first \<open>n\<close> calls.
\<close>

definition unit_random :: "(nat \<Rightarrow> real) \<Rightarrow> nat \<Rightarrow> bool" where
  "unit_random rnd n = list_all (\<lambda>k. 0 \<le> rnd k \<and> rnd k < 1) [0..<n]"

section \<open>SRS (app.js, applySRS)\<close>

definition clamp :: "real \<Rightarrow> real \<Rightarrow> real \<Rightarrow> real" where
  "clamp n lo hi = max lo (min hi n)"

text \<open>
  \<open>applySRS(card, grade)\<close> mutates \<open>card.srs\<close> in place; the model returns the updated
  card. The statements of one branch run in the source's order, so that a later one
  reads the fields an earlier one wrote. A grade other than the three strings falls
  through all three tests and changes nothing.
\<close>

definition applySRS :: "env \<Rightarrow> card \<Rightarrow> string \<Rightarrow> card" where
  "applySRS e c grade =
    (let s = srs c; now = dateNow e 0 in
     if grade = ''again'' then
       (let s1 = s\<lparr>lapses := lapses s + 1\<rparr>;
            s2 = s1\<lparr>reps := 0\<rparr>;
            s3 = s2\<lparr>ease := clamp (ease s2 - 0.20) 1.3 3.0\<rparr>;
            s4 = s3\<lparr>intervalDays := 0.25\<rparr>;
            s5 = s4\<lparr>due := now + intervalDays s4 * 24 * 60 * 60 * 1000\<rparr>
        in c\<lparr>srs := s5\<rparr>)
     else if grade = ''good'' then
       (let s1 = s\<lparr>ease := clamp (ease s + 0.05) 1.3 3.0\<rparr>;
            s2 = (if reps s1 = 0 then s1\<lparr>intervalDays := 1\<rparr>
                  else s1\<lparr>intervalDays := max 1 (intervalDays s1 * ease s1)\<rparr>);
            s3 = s2\<lparr>reps := reps s2 + 1\<rparr>;
            s4 = s3\<lparr>due := now + intervalDays s3 * 24 * 60 * 60 * 1000\<rparr>
        in c\<lparr>srs := s4\<rparr>)
     else if grade = ''easy'' then
       (let s1 = s\<lparr>ease := clamp (ease s + 0.15) 1.3 3.0\<rparr>;
            s2 = (if reps s1 = 0 then s1\<lparr>intervalDays := 2\<rparr>
                  else s1\<lparr>intervalDays := max 2 (intervalDays s1 * ease s1 * 1.3)\<rparr>);
            s3 = s2\<lparr>reps := reps s2 + 1\<rparr>;
            s4 = s3\<lparr>due := now + intervalDays s3 * 24 * 60 * 60 * 1000\<rparr>
        in c\<lparr>srs := s4\<rparr>)
     else c)"

text \<open>
  A run of reviews: each element is the environment of one call of \<open>applySRS\<close> together
  with its grade, applied to the card left by the previous call.
\<close>

definition review_run :: "card \<Rightarrow> (env \<times> string) list \<Rightarrow> card" where
  "review_run c gs = foldl (\<lambda>c' (e, g). applySRS e c' g) c gs"

definition ease_ok :: "card \<Rightarrow> bool" where
  "ease_ok c = (1.3 \<le> ease (srs c) \<and> ease (srs c) \<le> 3.0)"

section \<open>Study queue (app.js, buildStudyQueue)\<close>

text \<open>
  The shuffle loop \<open>for (let i = q.length - 1; i > 0; i--)\<close>: \<open>shuffle_loop rnd k i q\<close>
  runs the iterations \<open>i, i - 1, ..., 1\<close> on \<open>q\<close>, where \<open>k\<close> calls of \<open>Math.random()\<close>
  were made before. The destructuring swap reads both elements before it writes.
  With \<open>Math.random()\<close> in \<open>[0, 1)\<close> the index \<open>j\<close> is at most \<open>i\<close>, so both accesses
  are in range.
\<close>

fun shuffle_loop :: "(nat \<Rightarrow> real) \<Rightarrow> nat \<Rightarrow> nat \<Rightarrow> 'a list \<Rightarrow> 'a list" where
  "shuffle_loop rnd k 0 q = q"
| "shuffle_loop rnd k (Suc i) q =
     (let j = nat \<lfloor>rnd k * real (Suc i + 1)\<rfloor>
      in shuffle_loop rnd (Suc k) i (q[Suc i := q ! j, j := q ! Suc i]))"

definition buildStudyQueue :: "env \<Rightarrow> card list \<Rightarrow> nat \<Rightarrow> card list" where
  "buildStudyQueue e cs goal =
    (let now = dateNow e 0;
         due_cards = filter (\<lambda>c. due (srs c) \<le> now) cs;
         fresh = filter (\<lambda>c. reps (srs c) = 0 \<and> due (srs c) \<le> now) cs;
         notDue = filter (\<lambda>c. due (srs c) > now) cs;
         q = (if length due_cards < goal
              then due_cards @
                   filter (\<lambda>c. \<not> list_ex (\<lambda>x. c_id x = c_id c) due_cards) (fresh @ notDue)
              else due_cards);
         q' = shuffle_loop (mathRandom e) 0 (length q - 1) q
     in take goal q')"

section \<open>Store (db.js)\<close>

text \<open>
  The database holds two object stores, both with key path \<open>id\<close>. An object store is
  modelled as the list of its records; no definition below depends on the position of
  a record in the list. \<open>put\<close> replaces the record with the same key or inserts a new
  one, \<open>add\<close> fails with a ConstraintError when the key is taken, \<open>delete\<close> removes the
  record with the key if there is one, and the index \<open>by_deck\<close> with the range
  \<open>IDBKeyRange.only(k)\<close> lists the cards whose \<open>deckId\<close> is \<open>k\<close>.
\<close>

record store =
  decks :: "deck list"
  cards :: "card list"

datatype error = DeckNotFound | CardNotFound | ConstraintError | TransactionAborted

definition decks_delete :: "string \<Rightarrow> store \<Rightarrow> error + store" where
  "decks_delete k s = Inr (s\<lparr>decks := filter (\<lambda>d. d_id d \<noteq> k) (decks s)\<rparr>)"

definition cards_delete :: "string \<Rightarrow> store \<Rightarrow> error + store" where
  "cards_delete k s = Inr (s\<lparr>cards := filter (\<lambda>c. c_id c \<noteq> k) (cards s)\<rparr>)"

definition cards_get :: "string \<Rightarrow> store \<Rightarrow> card option" where
  "cards_get k s = find (\<lambda>c. c_id c = k) (cards s)"

definition cards_put :: "card \<Rightarrow> store \<Rightarrow> error + store" where
  "cards_put c s =
     (case cards_get (c_id c) s of
        None \<Rightarrow> Inr (s\<lparr>cards := cards s @ [c]\<rparr>)
      | Some old \<Rightarrow> Inr (s\<lparr>cards := map (\<lambda>x. if c_id x = c_id c then c else x) (cards s)\<rparr>))"

definition cards_add :: "card \<Rightarrow> store \<Rightarrow> error + store" where
  "cards_add c s =
     (case cards_get (c_id c) s of
        None \<Rightarrow> Inr (s\<lparr>cards := cards s @ [c]\<rparr>)
      | Some old \<Rightarrow> Inl ConstraintError)"

definition by_deck :: "string \<Rightarrow> store \<Rightarrow> card list" where
  "by_deck k s = filter (\<lambda>c. deckId c = k) (cards s)"

text \<open>A request that only reads leaves the object stores as they are.\<close>

definition read_only :: "store \<Rightarrow> error + store" where
  "read_only s = Inr s"

subsection \<open>Transactions\<close>

text \<open>
  A transaction works on its own view of the object stores. \<open>served\<close> injects a storage
  failure: \<open>Some n\<close> lets the storage layer serve \<open>n\<close> more steps (requests, and the
  commit as the last step) before it fails, \<open>None\<close> injects none. A request that fails
  aborts the transaction. \<open>txDone\<close> resolves on \<open>complete\<close>, and then the view of the
  transaction is the database; it rejects on \<open>abort\<close> or \<open>error\<close>, and then the database is
  as it was when the transaction began.
\<close>

record txn =
  view :: store
  served :: "nat option"

definition transaction :: "store \<Rightarrow> nat option \<Rightarrow> txn" where
  "transaction s fault = \<lparr>view = s, served = fault\<rparr>"

definition request :: "(store \<Rightarrow> error + store) \<Rightarrow> txn \<Rightarrow> error + txn" where
  "request f t =
     (case served t of
        Some 0 \<Rightarrow> Inl TransactionAborted
      | Some (Suc n) \<Rightarrow>
          (case f (view t) of Inl err \<Rightarrow> Inl err | Inr s' \<Rightarrow> Inr \<lparr>view = s', served = Some n\<rparr>)
      | None \<Rightarrow>
          (case f (view t) of Inl err \<Rightarrow> Inl err | Inr s' \<Rightarrow> Inr \<lparr>view = s', served = None\<rparr>))"

definition and_then :: "error + txn \<Rightarrow> (txn \<Rightarrow> error + txn) \<Rightarrow> error + txn" where
  "and_then r f = (case r of Inl err \<Rightarrow> Inl err | Inr t \<Rightarrow> f t)"

definition txDone :: "store \<Rightarrow> error + txn \<Rightarrow> (error + unit) \<times> store" where
  "txDone s r =
     (case r of
        Inl err \<Rightarrow> (Inl err, s)
      | Inr t \<Rightarrow>
          (case served t of
             Some 0 \<Rightarrow> (Inl TransactionAborted, s)
           | _ \<Rightarrow> (Inr (), view t)))"

subsection \<open>Operations\<close>

text \<open>
  Every operation takes the injected failure and the database, and returns what its
  promise settles with (\<open>Inl\<close> for a rejection) together with the database afterwards.
\<close>

text \<open>
  The cursor of \<open>deleteDeck\<close>: for each record the cursor stands on, the success handler
  issues \<open>cur.delete()\<close> and \<open>cur.continue()\<close>; when the cursor is exhausted it does
  nothing.
\<close>

fun cursor_loop :: "card list \<Rightarrow> txn \<Rightarrow> error + txn" where
  "cursor_loop [] t = Inr t"
| "cursor_loop (cur # rest) t =
     and_then (request (cards_delete (c_id cur)) t)
       (\<lambda>t1. and_then (request read_only t1) (cursor_loop rest))"

definition deleteDeck :: "nat option \<Rightarrow> store \<Rightarrow> string \<Rightarrow> (error + unit) \<times> store" where
  "deleteDeck fault s ident =
     txDone s
       (and_then (request (decks_delete ident) (transaction s fault))
          (\<lambda>t1. and_then (request read_only t1)
             (\<lambda>t2. cursor_loop (by_deck ident (view t2)) t2)))"

definition is_space :: "char \<Rightarrow> bool" where
  "is_space ch = (ch \<in> set [CHR '' '', CHR 0x09, CHR 0x0A, CHR 0x0B, CHR 0x0C, CHR 0x0D])"

text \<open>
  \<open>String.prototype.trim\<close> on the ASCII white space; the white space of Unicode beyond
  ASCII, which takes several bytes in a \<^typ>\<open>string\<close>, is not modelled.
\<close>

definition trim :: "string \<Rightarrow> string" where
  "trim s = rev (dropWhile is_space (rev (dropWhile is_space s)))"

text \<open>\<open>(x || "")\<close>: a missing entry and the empty string both give the empty string.\<close>

definition or_empty :: "string option \<Rightarrow> string" where
  "or_empty x = (case x of None \<Rightarrow> [] | Some v \<Rightarrow> v)"

definition uid :: "env \<Rightarrow> string" where
  "uid e = drop 2 (toString16 e (mathRandom e 0)) @ ''-'' @ toString16 e (dateNow e 0)"

text \<open>\<open>defaultSRS()\<close>, called after \<open>k\<close> earlier calls of \<open>Date.now()\<close>.\<close>

definition defaultSRS :: "env \<Rightarrow> nat \<Rightarrow> review_state" where
  "defaultSRS e k = \<lparr>due = dateNow e k, intervalDays = 0, ease = 2.3, reps = 0, lapses = 0\<rparr>"

text \<open>
  \<open>addCard\<close> builds the card (\<open>uid()\<close> reads the clock first, \<open>createdAt\<close> second,
  \<open>defaultSRS()\<close> third), adds it in a transaction on the cards store and returns it.
\<close>

definition new_card :: "env \<Rightarrow> string \<Rightarrow> fields \<Rightarrow> card" where
  "new_card e dk f =
     \<lparr>c_id = uid e, deckId = dk,
      english = trim (f_english f), german = trim (f_german f),
      article = trim (or_empty (f_article f)), plural = trim (or_empty (f_plural f)),
      example = trim (or_empty (f_example f)), c_notes = trim (or_empty (f_notes f)),
      createdAt = dateNow e 1, srs = defaultSRS e 2\<rparr>"

definition addCard :: "env \<Rightarrow> nat option \<Rightarrow> store \<Rightarrow> string \<Rightarrow> fields \<Rightarrow> (error + card) \<times> store" where
  "addCard e fault s dk f =
     (let c = new_card e dk f in
      case txDone s (request (cards_add c) (transaction s fault)) of
        (Inl err, s') \<Rightarrow> (Inl err, s')
      | (Inr u, s') \<Rightarrow> (Inr c, s'))"

definition set_fields :: "card \<Rightarrow> fields \<Rightarrow> card" where
  "set_fields c f =
     c\<lparr>english := trim (f_english f), german := trim (f_german f),
       article := trim (or_empty (f_article f)), plural := trim (or_empty (f_plural f)),
       example := trim (or_empty (f_example f)), c_notes := trim (or_empty (f_notes f))\<rparr>"

text \<open>
  \<open>updateCard\<close>: when \<open>store.get\<close> finds no record the function throws, no further
  request is made and the transaction completes without a change.
\<close>

definition updateCard :: "nat option \<Rightarrow> store \<Rightarrow> string \<Rightarrow> fields \<Rightarrow> (error + card) \<times> store" where
  "updateCard fault s cardId f =
     (case request read_only (transaction s fault) of
        Inl err \<Rightarrow> (Inl err, s)
      | Inr t1 \<Rightarrow>
          (case cards_get cardId (view t1) of
             None \<Rightarrow> (Inl CardNotFound, s)
           | Some c \<Rightarrow>
               (let c' = set_fields c f in
                case txDone s (request (cards_put c') t1) of
                  (Inl err, s') \<Rightarrow> (Inl err, s')
                | (Inr u, s') \<Rightarrow> (Inr c', s'))))"

definition deleteCard :: "nat option \<Rightarrow> store \<Rightarrow> string \<Rightarrow> (error + unit) \<times> store" where
  "deleteCard fault s cardId = txDone s (request (cards_delete cardId) (transaction s fault))"

definition putCard :: "nat option \<Rightarrow> store \<Rightarrow> card \<Rightarrow> (error + unit) \<times> store" where
  "putCard fault s c = txDone s (request (cards_put c) (transaction s fault))"

section \<open>Study session (app.js, gradeCurrent)\<close>

text \<open>
  The module variables \<open>db\<close> and \<open>study\<close>. Rendering, the status line and the refresh of
  the cards panel are left out: they write to the page and to \<open>selectedDeckCards\<close>
  only.
\<close>

record study_state =
  active :: bool
  mode :: string
  study_deckId :: "string option"
  goal :: nat
  done_count :: nat
  queue :: "card list"
  current :: "card option"
  flipped :: bool
  genderAnswered :: bool
  genderCorrect :: bool

record app_state =
  db :: store
  study :: study_state

text \<open>
  \<open>gradeCurrent(grade)\<close> returns the rejection of its promise, if any, and the state
  afterwards. \<open>applySRS\<close> mutates the object \<open>study.current\<close> refers to before \<open>putCard\<close>
  is awaited, so a rejected \<open>putCard\<close> leaves the mutated card in \<open>study.current\<close>.
  \<open>queue.shift()\<close> on an empty queue gives \<open>undefined\<close>.
\<close>

definition gradeCurrent :: "env \<Rightarrow> nat option \<Rightarrow> app_state \<Rightarrow> string \<Rightarrow> error option \<times> app_state" where
  "gradeCurrent e fault a grade =
     (let st = study a in
      if \<not> active st \<or> current st = None then (None, a)
      else if mode st = ''gender'' \<and> \<not> genderAnswered st then (None, a)
      else
        (case current st of
           None \<Rightarrow> (None, a)
         | Some cur \<Rightarrow>
            (let c = applySRS e cur grade;
                 st1 = st\<lparr>current := Some c\<rparr>
             in case putCard fault (db a) c of
                  (Inl err, s') \<Rightarrow> (Some err, a\<lparr>db := s', study := st1\<rparr>)
                | (Inr u, s') \<Rightarrow>
                    (let st2 = st1\<lparr>done_count := done_count st1 + 1\<rparr> in
                     if done_count st2 \<ge> goal st2 \<or> queue st2 = []
                     then (None, a\<lparr>db := s', study := st2\<lparr>active := False\<rparr>\<rparr>)
                     else (None, a\<lparr>db := s',
                                   study := st2\<lparr>current := (case queue st2 of [] \<Rightarrow> None | x # xs \<Rightarrow> Some x),
                                               queue := tl (queue st2),
                                               flipped := False,
                                               genderAnswered := False,
                                               genderCorrect := False\<rparr>\<rparr>)))))"

section \<open>Example values\<close>

text \<open>
  Concrete values used in the examples below. \<open>hex0\<close> gives the hexadecimal strings of
  the three numbers the examples convert: 1000 is \<open>3e8\<close>, 2000 is \<open>7d0\<close> and 0.5 is
  \<open>0.8\<close>.
\<close>

definition hex0 :: "real \<Rightarrow> string" where
  "hex0 r = (if r = 1000 then ''3e8'' else if r = 2000 then ''7d0'' else ''0.8'')"

definition env0 :: env where
  "env0 = \<lparr>dateNow = (\<lambda>k. 1000), mathRandom = (\<lambda>k. 1 / 2), toString16 = hex0\<rparr>"

definition env1 :: env where
  "env1 = \<lparr>dateNow = (\<lambda>k. 2000), mathRandom = (\<lambda>k. 1 / 2), toString16 = hex0\<rparr>"

definition env2 :: env where
  "env2 = \<lparr>dateNow = (\<lambda>k. 1000), mathRandom = (\<lambda>k. 0), toString16 = hex0\<rparr>"

definition srs0 :: review_state where
  "srs0 = \<lparr>due = 0, intervalDays = 0, ease = 2.3, reps = 0, lapses = 0\<rparr>"

definition card0 :: card where
  "card0 = \<lparr>c_id = ''c1'', deckId = ''d1'', english = ''the house'', german = ''Haus'',
            article = ''das'', plural = '''', example = '''', c_notes = '''',
            createdAt = 0, srs = srs0\<rparr>"

definition card1 :: card where
  "card1 = \<lparr>c_id = ''c2'', deckId = ''d1'', english = ''the dog'', german = ''Hund'',
            article = ''der'', plural = ''Hunde'', example = '''', c_notes = '''',
            createdAt = 1, srs = srs0\<rparr>"

definition card2 :: card where
  "card2 = \<lparr>c_id = ''c3'', deckId = ''d2'', english = ''the cat'', german = ''Katze'',
            article = ''die'', plural = '''', example = '''', c_notes = '''',
            createdAt = 2, srs = srs0\<lparr>due := 5000\<rparr>\<rparr>"

definition cardsA :: "card list" where
  "cardsA = [card0, card1, card2]"

definition store0 :: store where
  "store0 = \<lparr>decks = [], cards = []\<rparr>"

definition storeA :: store where
  "storeA = \<lparr>decks = [\<lparr>d_id = ''d1'', d_name = ''Starter'', d_createdAt = 0\<rparr>,
                        \<lparr>d_id = ''d2'', d_name = ''Animals'', d_createdAt = 1\<rparr>],
              cards = cardsA\<rparr>"

definition fieldsA :: fields where
  "fieldsA = \<lparr>f_english = '' the tree'', f_german = ''Baum '', f_article = Some ''der'',
               f_plural = None, f_example = None, f_notes = None\<rparr>"

definition fieldsBlank :: fields where
  "fieldsBlank = \<lparr>f_english = '''', f_german = ''  '', f_article = None,
                   f_plural = None, f_example = None, f_notes = None\<rparr>"

definition appA :: app_state where
  "appA = \<lparr>db = storeA,
            study = \<lparr>active = True, mode = ''gender'', study_deckId = Some ''d1'', goal = 2,
                     done_count = 0, queue = [card1], current = Some card0, flipped = False,
                     genderAnswered = False, genderCorrect = False\<rparr>\<rparr>"

section \<open>Scheduling engine: properties\<close>

lemma clamp_bounds: "lo \<le> hi \<Longrightarrow> lo \<le> clamp n lo hi \<and> clamp n lo hi \<le> hi"
  by (simp add: clamp_def)

lemma clamp_ease: "1.3 \<le> clamp n 1.3 3.0 \<and> clamp n 1.3 3.0 \<le> 3.0"
  by (rule clamp_bounds) simp

lemma applySRS_ease_ok: "ease_ok c \<Longrightarrow> ease_ok (applySRS e c g)"
  using clamp_ease [of "ease (srs c) - 0.20"] clamp_ease [of "ease (srs c) + 0.05"]
    clamp_ease [of "ease (srs c) + 0.15"]
  by (simp add: applySRS_def ease_ok_def Let_def)

lemma review_run_snoc: "review_run c (gs @ [(e, g)]) = applySRS e (review_run c gs) g"
  by (simp add: review_run_def)

lemma review_run_ease_ok: "ease_ok c \<Longrightarrow> ease_ok (review_run c gs)"
proof (induction gs rule: rev_induct)
  case Nil
  then show ?case by (simp add: review_run_def)
next
  case (snoc x xs)
  obtain e g where x: "x = (e, g)" by (cases x)
  from snoc show ?case unfolding x review_run_snoc by (simp add: applySRS_ease_ok)
qed

text \<open>
  C2. If the ease of a card lies in \<open>[1.3, 3.0]\<close>, then after every transition of every
  finite sequence of grades drawn from again, good and easy (that is, after every
  prefix of the sequence), the ease still lies in \<open>[1.3, 3.0]\<close>.
\<close>

theorem applySRS_ease_invariant:
  assumes "1.3 \<le> ease (srs c)" and "ease (srs c) \<le> 3.0"
    and "snd ` set gs \<subseteq> {''again'', ''good'', ''easy''}"
    and "n \<le> length gs"
  shows "1.3 \<le> ease (srs (review_run c (take n gs)))
       \<and> ease (srs (review_run c (take n gs))) \<le> 3.0"
proof -
  from assms(1,2) have "ease_ok c" by (simp add: ease_ok_def)
  then have "ease_ok (review_run c (take n gs))" by (rule review_run_ease_ok)
  then show ?thesis by (simp add: ease_ok_def)
qed

theorem applySRS_ease_invariant_witness:
  "1.3 \<le> ease (srs card0) \<and> ease (srs card0) \<le> 3.0
   \<and> snd ` set [(env0, ''again''), (env1, ''easy''), (env1, ''good'')] \<subseteq> {''again'', ''good'', ''easy''}
   \<and> (2::nat) \<le> length [(env0, ''again''), (env1, ''easy''), (env1, ''good'')]
   \<and> 1.3 \<le> ease (srs (review_run card0 (take 2 [(env0, ''again''), (env1, ''easy''), (env1, ''good'')])))
   \<and> ease (srs (review_run card0 (take 2 [(env0, ''again''), (env1, ''easy''), (env1, ''good'')]))) \<le> 3.0"
proof -
  have a: "1.3 \<le> ease (srs card0)" and b: "ease (srs card0) \<le> 3.0"
    by (simp_all add: card0_def srs0_def)
  have c: "snd ` set [(env0, ''again''), (env1, ''easy''), (env1, ''good'')] \<subseteq> {''again'', ''good'', ''easy''}"
    by simp
  have d: "(2::nat) \<le> length [(env0, ''again''), (env1, ''easy''), (env1, ''good'')]"
    by simp
  from applySRS_ease_invariant [OF a b c d] a b c d show ?thesis by blast
qed

text \<open>
  C3. From any prior review state and at any clock reading \<open>now\<close>, the grade again
  produces \<open>reps = 0\<close>, \<open>intervalDays = 0.25\<close>, \<open>due = now + 0.25\<close> days (21600000 ms),
  \<open>lapses\<close> incremented by 1 and \<open>ease = clamp (ease - 0.20)\<close> into \<open>[1.3, 3.0]\<close>; the
  other fields of the card are untouched.
\<close>

theorem applySRS_again:
  "applySRS e c ''again'' =
     c\<lparr>srs := \<lparr>due = dateNow e 0 + 0.25 * (24 * 60 * 60 * 1000),
               intervalDays = 0.25,
               ease = max 1.3 (min 3.0 (ease (srs c) - 0.20)),
               reps = 0,
               lapses = lapses (srs c) + 1\<rparr>\<rparr>"
  by (cases c, cases "srs c") (simp add: applySRS_def clamp_def Let_def)

text \<open>
  C6, as stated, fails: \<open>applySRS\<close> takes the card and the grade only and reads
  \<open>Date.now()\<close> itself, so two runs on the same card and grade under different clocks
  give different results.
\<close>

theorem applySRS_clock_counterexample:
  "applySRS env0 card0 ''again'' \<noteq> applySRS env1 card0 ''again''"
  by (simp add: applySRS_def env0_def env1_def card0_def srs0_def Let_def)

text \<open>
  C6, as amended. \<open>applySRS\<close> reads the time from the global clock inside the function.
  Given the review state, the grade and that one clock reading it is deterministic: two
  runs that agree on the three give identical review states, whatever else differs in
  the environment or the card.
\<close>

theorem applySRS_clock_deterministic:
  assumes "srs c1 = srs c2" and "dateNow e1 0 = dateNow e2 0"
  shows "srs (applySRS e1 c1 g) = srs (applySRS e2 c2 g)"
  using assms by (simp add: applySRS_def Let_def)

theorem applySRS_clock_deterministic_witness:
  "srs card0 = srs card1 \<and> dateNow env0 0 = dateNow env2 0
   \<and> srs (applySRS env0 card0 ''good'') = srs (applySRS env2 card1 ''good'')"
proof -
  have a: "srs card0 = srs card1" by (simp add: card0_def card1_def)
  have b: "dateNow env0 0 = dateNow env2 0" by (simp add: env0_def env2_def)
  from applySRS_clock_deterministic [OF a b] a b show ?thesis by blast
qed

section \<open>Study queue: properties\<close>

lemma floor_idx: "0 \<le> r \<Longrightarrow> r < 1 \<Longrightarrow> nat \<lfloor>r * real (Suc n)\<rfloor> \<le> n"
proof -
  assume a: "0 \<le> r" "r < 1"
  have "r * real (Suc n) < real (Suc n)" using a by simp
  then have "\<lfloor>r * real (Suc n)\<rfloor> < int (Suc n)" by (simp add: floor_less_iff)
  then show ?thesis by linarith
qed

lemma unit_randomD: "unit_random rnd n \<Longrightarrow> k < n \<Longrightarrow> 0 \<le> rnd k \<and> rnd k < 1"
  by (simp add: unit_random_def list_all_iff)

lemma shuffle_loop_mset:
  "unit_random rnd (k + i) \<Longrightarrow> i < length q \<Longrightarrow> mset (shuffle_loop rnd k i q) = mset q"
proof (induction i arbitrary: k q)
  case 0
  then show ?case by simp
next
  case (Suc i)
  let ?j = "nat \<lfloor>rnd k * real (Suc (Suc i))\<rfloor>"
  from Suc.prems(1) have "0 \<le> rnd k \<and> rnd k < 1" by (rule unit_randomD) simp
  then have "0 \<le> rnd k" "rnd k < 1" by simp_all
  then have j: "?j \<le> Suc i" by (rule floor_idx)
  with Suc.prems(2) have jl: "?j < length q" by simp
  have sw: "mset (q[Suc i := q ! ?j, ?j := q ! Suc i]) = mset q"
    using Suc.prems(2) jl by (simp add: mset_swap)
  have "mset (shuffle_loop rnd (Suc k) i (q[Suc i := q ! ?j, ?j := q ! Suc i]))
        = mset (q[Suc i := q ! ?j, ?j := q ! Suc i])"
    using Suc.prems by (intro Suc.IH) simp_all
  with sw show ?case by (simp add: Let_def)
qed

lemma unit_random_mono: "unit_random rnd n \<Longrightarrow> m \<le> n \<Longrightarrow> unit_random rnd m"
  by (simp add: unit_random_def list_all_iff)

lemma shuffle_all_mset:
  assumes "unit_random rnd (length q)"
  shows "mset (shuffle_loop rnd 0 (length q - 1) q) = mset q"
proof (cases q)
  case Nil
  then show ?thesis by simp
next
  case (Cons x xs)
  from assms have "unit_random rnd (0 + (length q - 1))" by (rule unit_random_mono) simp
  moreover from Cons have "length q - 1 < length q" by simp
  ultimately show ?thesis by (rule shuffle_loop_mset)
qed

lemma add_is_notDue:
  assumes "distinct (map c_id cs)"
  shows "filter (\<lambda>c. \<not> list_ex (\<lambda>x. c_id x = c_id c) (filter (\<lambda>c. due (srs c) \<le> now) cs))
           (filter (\<lambda>c. reps (srs c) = 0 \<and> due (srs c) \<le> now) cs @ filter (\<lambda>c. due (srs c) > now) cs)
         = filter (\<lambda>c. due (srs c) > now) cs"
proof -
  have inj: "\<And>x y. x \<in> set cs \<Longrightarrow> y \<in> set cs \<Longrightarrow> c_id x = c_id y \<Longrightarrow> x = y"
    using assms by (meson distinct_map inj_onD)
  have 1: "filter (\<lambda>c. \<not> list_ex (\<lambda>x. c_id x = c_id c) (filter (\<lambda>c. due (srs c) \<le> now) cs))
             (filter (\<lambda>c. reps (srs c) = 0 \<and> due (srs c) \<le> now) cs) = []"
    by (auto simp: filter_empty_conv list_ex_iff)
  have 2: "filter (\<lambda>c. \<not> list_ex (\<lambda>x. c_id x = c_id c) (filter (\<lambda>c. due (srs c) \<le> now) cs))
             (filter (\<lambda>c. due (srs c) > now) cs) = filter (\<lambda>c. due (srs c) > now) cs"
  proof -
    have "\<And>c. c \<in> set (filter (\<lambda>c. due (srs c) > now) cs) \<Longrightarrow>
            \<not> list_ex (\<lambda>x. c_id x = c_id c) (filter (\<lambda>c. due (srs c) \<le> now) cs)"
    proof -
      fix c assume c: "c \<in> set (filter (\<lambda>c. due (srs c) > now) cs)"
      show "\<not> list_ex (\<lambda>x. c_id x = c_id c) (filter (\<lambda>c. due (srs c) \<le> now) cs)"
      proof
        assume "list_ex (\<lambda>x. c_id x = c_id c) (filter (\<lambda>c. due (srs c) \<le> now) cs)"
        then obtain x where x: "x \<in> set cs" "due (srs x) \<le> now" "c_id x = c_id c"
          by (auto simp: list_ex_iff)
        from c have "c \<in> set cs" "now < due (srs c)" by simp_all
        with x inj [of x c] show False by simp
      qed
    qed
    then show ?thesis by (simp only: filter_id_conv) blast
  qed
  from 1 2 show ?thesis by simp
qed

lemma candidates_mset:
  "mset (filter (\<lambda>c. due (srs c) \<le> now) cs @ filter (\<lambda>c. due (srs c) > now) cs) = mset (cs :: card list)"
proof -
  have "(\<lambda>c::card. due (srs c) > now) = (\<lambda>c. \<not> due (srs c) \<le> now)" by (auto simp: fun_eq_iff)
  then show ?thesis by simp
qed

text \<open>
  C7. For \<open>C\<close> cards with distinct ids and a goal of at least 1, where the calls of
  \<open>Math.random()\<close> made by the shuffle (fewer than \<open>C\<close>) return numbers in \<open>[0, 1)\<close>: the
  queue has length \<open>min goal C\<close>, every card of the queue is one of the given cards, as
  given (so the fields read below are those of the input), it holds no id twice, and
  when at least \<open>goal\<close> cards are due at the clock reading of the build (\<open>due \<le> now\<close>),
  every card of the queue is due.
\<close>

theorem buildStudyQueue_queue:
  assumes rnd: "unit_random (mathRandom e) (length cs)"
    and dist: "distinct (map c_id cs)"
    and goal: "1 \<le> n"
  shows "length (buildStudyQueue e cs n) = min n (length cs)
       \<and> set (buildStudyQueue e cs n) \<subseteq> set cs
       \<and> distinct (map c_id (buildStudyQueue e cs n))
       \<and> (n \<le> length (filter (\<lambda>c. due (srs c) \<le> dateNow e 0) cs)
            \<longrightarrow> (\<forall>c \<in> set (buildStudyQueue e cs n). due (srs c) \<le> dateNow e 0))"
proof -
  let ?now = "dateNow e 0"
  let ?dues = "filter (\<lambda>c. due (srs c) \<le> ?now) cs"
  let ?notDue = "filter (\<lambda>c. due (srs c) > ?now) cs"
  let ?q = "if length ?dues < n then ?dues @ ?notDue else ?dues"
  let ?q' = "shuffle_loop (mathRandom e) 0 (length ?q - 1) ?q"
  have res: "buildStudyQueue e cs n = take n ?q'"
    unfolding buildStudyQueue_def Let_def by (simp only: add_is_notDue [OF dist])
  have all: "mset (?dues @ ?notDue) = mset cs" by (rule candidates_mset)
  then have lall: "length (?dues @ ?notDue) = length cs" by (rule mset_eq_length)
  have ldue: "length ?dues \<le> length cs" by (rule length_filter_le)
  have "length ?q \<le> length cs"
  proof (cases "length ?dues < n")
    case True
    then show ?thesis using lall by (simp only: if_True)
  next
    case False
    then show ?thesis using ldue by (simp only: if_False)
  qed
  with rnd have "unit_random (mathRandom e) (length ?q)" by (rule unit_random_mono)
  then have perm: "mset ?q' = mset ?q" by (rule shuffle_all_mset)
  then have len: "length ?q' = length ?q" by (rule mset_eq_length)
  have L: "length (take n ?q') = min n (length cs)"
  proof (cases "length ?dues < n")
    case True
    then have "length ?q = length cs" using lall by (simp only: if_True)
    with len show ?thesis by (simp only: length_take)
  next
    case False
    then have "length ?q = length ?dues" by (simp only: if_False)
    with len have "length ?q' = length ?dues" by (simp only:)
    with False ldue show ?thesis by (simp only: length_take)
  qed
  have dq: "distinct (map c_id ?q)"
  proof (cases "length ?dues < n")
    case True
    have "image_mset c_id (mset (?dues @ ?notDue)) = image_mset c_id (mset cs)"
      using all by (rule arg_cong)
    then have "mset (map c_id (?dues @ ?notDue)) = mset (map c_id cs)" by (simp only: mset_map)
    then have "distinct (map c_id (?dues @ ?notDue)) = distinct (map c_id cs)"
      by (rule mset_eq_imp_distinct_iff)
    with dist have "distinct (map c_id (?dues @ ?notDue))" by (simp only:)
    with True show ?thesis by (simp only: if_True)
  next
    case False
    have "distinct (map c_id ?dues)" using dist by (rule distinct_map_filter)
    with False show ?thesis by (simp only: if_False)
  qed
  have "image_mset c_id (mset ?q') = image_mset c_id (mset ?q)" using perm by (rule arg_cong)
  then have "mset (map c_id ?q') = mset (map c_id ?q)" by (simp only: mset_map)
  then have "distinct (map c_id ?q') = distinct (map c_id ?q)" by (rule mset_eq_imp_distinct_iff)
  with dq have "distinct (map c_id ?q')" by (simp only:)
  then have "distinct (take n (map c_id ?q'))" by (rule distinct_take)
  then have D: "distinct (map c_id (take n ?q'))" by (simp only: take_map)
  have A: "n \<le> length ?dues \<longrightarrow> (\<forall>c \<in> set (take n ?q'). due (srs c) \<le> ?now)"
  proof (intro impI ballI)
    fix c assume n: "n \<le> length ?dues" and c: "c \<in> set (take n ?q')"
    from n have "\<not> length ?dues < n" by simp
    then have "?q = ?dues" by (simp only: if_False)
    with perm have "mset ?q' = mset ?dues" by (simp only:)
    then have "set ?q' = set ?dues" by (rule mset_eq_setD)
    moreover from c have "c \<in> set ?q'" by (rule in_set_takeD)
    ultimately have "c \<in> set ?dues" by (simp only:)
    then show "due (srs c) \<le> ?now" by simp
  qed
  have S: "set (take n ?q') \<subseteq> set cs"
  proof
    fix c assume "c \<in> set (take n ?q')"
    then have "c \<in> set ?q'" by (rule in_set_takeD)
    moreover from perm have "set ?q' = set ?q" by (rule mset_eq_setD)
    ultimately have "c \<in> set ?q" by (simp only:)
    then show "c \<in> set cs" by (cases "length ?dues < n") auto
  qed
  from L S D A show ?thesis by (simp only: res)
qed

theorem buildStudyQueue_queue_witness:
  "unit_random (mathRandom env0) (length cardsA) \<and> distinct (map c_id cardsA) \<and> (1::nat) \<le> 2
   \<and> length (buildStudyQueue env0 cardsA 2) = min 2 (length cardsA)
   \<and> set (buildStudyQueue env0 cardsA 2) \<subseteq> set cardsA
   \<and> distinct (map c_id (buildStudyQueue env0 cardsA 2))
   \<and> 2 \<le> length (filter (\<lambda>c. due (srs c) \<le> dateNow env0 0) cardsA)
   \<and> list_all (\<lambda>c. due (srs c) \<le> dateNow env0 0) (buildStudyQueue env0 cardsA 2)"
proof -
  have a: "unit_random (mathRandom env0) (length cardsA)"
    by (simp add: unit_random_def env0_def cardsA_def upt_rec)
  have b: "distinct (map c_id cardsA)" by (simp add: cardsA_def card0_def card1_def card2_def)
  have c: "(1::nat) \<le> 2" by simp
  have d: "2 \<le> length (filter (\<lambda>c. due (srs c) \<le> dateNow env0 0) cardsA)"
    by (simp add: cardsA_def card0_def card1_def card2_def srs0_def env0_def)
  from buildStudyQueue_queue [OF a b c] a b c d show ?thesis
    unfolding list_all_iff by blast
qed

section \<open>Store: properties\<close>

lemma request_total:
  assumes f: "f (view t) = Inr s'"
  obtains "request f t = Inl TransactionAborted"
  | m where "request f t = Inr \<lparr>view = s', served = m\<rparr>" and "served t = None \<Longrightarrow> m = None"
proof (cases "served t")
  case None
  then have "request f t = Inr \<lparr>view = s', served = None\<rparr>" using f by (simp add: request_def)
  then show ?thesis using that(2) by simp
next
  case (Some k)
  show ?thesis
  proof (cases k)
    case 0
    with Some have "request f t = Inl TransactionAborted" by (simp add: request_def)
    then show ?thesis by (rule that(1))
  next
    case (Suc n)
    with Some have "request f t = Inr \<lparr>view = s', served = Some n\<rparr>"
      using f by (simp add: request_def)
    then show ?thesis using that(2) Some by simp
  qed
qed

lemma filter_twice:
  "filter (\<lambda>c. f c \<notin> f ` set rest) (filter (\<lambda>c. f c \<noteq> f cur) xs)
   = filter (\<lambda>c. f c \<notin> f ` set (cur # rest)) xs"
  by (induction xs) auto

lemma cursor_loop_cases:
  obtains "cursor_loop L t = Inl TransactionAborted"
  | t' where "cursor_loop L t = Inr t'"
      and "decks (view t') = decks (view t)"
      and "cards (view t') = filter (\<lambda>c. c_id c \<notin> c_id ` set L) (cards (view t))"
      and "served t = None \<Longrightarrow> served t' = None"
proof (induction L arbitrary: t thesis)
  case Nil
  show ?case by (rule Nil(2) [of t]) simp_all
next
  case (Cons cur rest)
  let ?s1 = "(view t)\<lparr>cards := filter (\<lambda>c. c_id c \<noteq> c_id cur) (cards (view t))\<rparr>"
  have f1: "cards_delete (c_id cur) (view t) = Inr ?s1" by (simp add: cards_delete_def)
  from f1 show ?case
  proof (cases rule: request_total)
    case 1
    then have "cursor_loop (cur # rest) t = Inl TransactionAborted" by (simp add: and_then_def)
    then show ?thesis by (rule Cons.prems(1))
  next
    case (2 m)
    let ?t1 = "\<lparr>view = ?s1, served = m\<rparr>"
    have f2: "read_only (view ?t1) = Inr ?s1" by (simp add: read_only_def)
    from f2 show ?thesis
    proof (cases rule: request_total)
      case 1
      with 2(1) have "cursor_loop (cur # rest) t = Inl TransactionAborted"
        by (simp add: and_then_def)
      then show ?thesis by (rule Cons.prems(1))
    next
      case (2 m')
      note r2 = this
      let ?t2 = "\<lparr>view = ?s1, served = m'\<rparr>"
      have step: "cursor_loop (cur # rest) t = cursor_loop rest ?t2"
        using \<open>request (cards_delete (c_id cur)) t = Inr ?t1\<close> r2(1) by (simp add: and_then_def)
      show ?thesis
      proof (rule Cons.IH [of ?t2])
        assume "cursor_loop rest ?t2 = Inl TransactionAborted"
        with step have "cursor_loop (cur # rest) t = Inl TransactionAborted" by simp
        then show ?thesis by (rule Cons.prems(1))
      next
        fix t' assume t': "cursor_loop rest ?t2 = Inr t'"
          "decks (view t') = decks (view ?t2)"
          "cards (view t') = filter (\<lambda>c. c_id c \<notin> c_id ` set rest) (cards (view ?t2))"
          "served ?t2 = None \<Longrightarrow> served t' = None"
        have a: "cursor_loop (cur # rest) t = Inr t'" using step t'(1) by simp
        have b: "decks (view t') = decks (view t)" using t'(2) by simp
        have c: "cards (view t') = filter (\<lambda>c. c_id c \<notin> c_id ` set (cur # rest)) (cards (view t))"
          using t'(3) filter_twice [of c_id rest cur "cards (view t)"] by simp
        have d: "served t = None \<Longrightarrow> served t' = None"
        proof -
          assume n: "served t = None"
          then have "m = None" by (rule \<open>served t = None \<Longrightarrow> m = None\<close>)
          then have "m' = None" using r2(2) by simp
          then show "served t' = None" using t'(4) by simp
        qed
        show ?thesis using a b c d by (rule Cons.prems(2))
      qed
    qed
  qed
qed

lemma deleteDeck_cases:
  obtains "deleteDeck fault s ident = (Inl TransactionAborted, s)"
  | s' where "deleteDeck fault s ident = (Inr (), s')"
      and "decks s' = filter (\<lambda>d. d_id d \<noteq> ident) (decks s)"
      and "cards s' = filter (\<lambda>c. c_id c \<notin> c_id ` set (by_deck ident s)) (cards s)"
proof -
  let ?t0 = "transaction s fault"
  let ?s1 = "s\<lparr>decks := filter (\<lambda>d. d_id d \<noteq> ident) (decks s)\<rparr>"
  have f1: "decks_delete ident (view ?t0) = Inr ?s1"
    by (simp add: decks_delete_def transaction_def)
  from f1 show ?thesis
  proof (cases rule: request_total)
    case 1
    then have "deleteDeck fault s ident = (Inl TransactionAborted, s)"
      by (simp add: deleteDeck_def and_then_def txDone_def)
    then show ?thesis by (rule that(1))
  next
    case (2 m)
    note r1 = this
    let ?t1 = "\<lparr>view = ?s1, served = m\<rparr>"
    have f2: "read_only (view ?t1) = Inr ?s1" by (simp add: read_only_def)
    from f2 show ?thesis
    proof (cases rule: request_total)
      case 1
      with r1(1) have "deleteDeck fault s ident = (Inl TransactionAborted, s)"
        by (simp add: deleteDeck_def and_then_def txDone_def)
      then show ?thesis by (rule that(1))
    next
      case (2 m')
      note r2 = this
      let ?t2 = "\<lparr>view = ?s1, served = m'\<rparr>"
      have bd: "by_deck ident (view ?t2) = by_deck ident s" by (simp add: by_deck_def)
      have step: "deleteDeck fault s ident = txDone s (cursor_loop (by_deck ident s) ?t2)"
        using r1(1) r2(1) bd by (simp add: deleteDeck_def and_then_def)
      show ?thesis
      proof (rule cursor_loop_cases [of "by_deck ident s" ?t2])
        assume "cursor_loop (by_deck ident s) ?t2 = Inl TransactionAborted"
        with step have "deleteDeck fault s ident = (Inl TransactionAborted, s)"
          by (simp add: txDone_def)
        then show ?thesis by (rule that(1))
      next
        fix t' assume t': "cursor_loop (by_deck ident s) ?t2 = Inr t'"
          "decks (view t') = decks (view ?t2)"
          "cards (view t') = filter (\<lambda>c. c_id c \<notin> c_id ` set (by_deck ident s)) (cards (view ?t2))"
          "served ?t2 = None \<Longrightarrow> served t' = None"
        have dk: "decks (view t') = filter (\<lambda>d. d_id d \<noteq> ident) (decks s)" using t'(2) by simp
        have cd: "cards (view t') = filter (\<lambda>c. c_id c \<notin> c_id ` set (by_deck ident s)) (cards s)"
          using t'(3) by simp
        show ?thesis
        proof (cases "served t' = Some 0")
          case True
          with step t'(1) have "deleteDeck fault s ident = (Inl TransactionAborted, s)"
            by (simp add: txDone_def)
          then show ?thesis by (rule that(1))
        next
          case False
          then have "txDone s (Inr t') = (Inr (), view t')"
            by (cases "served t'") (simp_all add: txDone_def split: nat.splits)
          with step t'(1) have r: "deleteDeck fault s ident = (Inr (), view t')" by simp
          from r dk cd show ?thesis by (rule that(2))
        qed
      qed
    qed
  qed
qed

lemma cursor_loop_no_fault:
  "served t = None \<Longrightarrow> \<exists>t'. cursor_loop L t = Inr t' \<and> served t' = None"
proof (induction L arbitrary: t)
  case Nil
  then show ?case by simp
next
  case (Cons cur rest)
  let ?t1 = "\<lparr>view = (view t)\<lparr>cards := filter (\<lambda>c. c_id c \<noteq> c_id cur) (cards (view t))\<rparr>,
              served = None\<rparr>"
  have a: "request (cards_delete (c_id cur)) t = Inr ?t1"
    using Cons.prems by (simp add: request_def cards_delete_def)
  have b: "request read_only ?t1 = Inr ?t1" by (simp add: request_def read_only_def)
  from a b have step: "cursor_loop (cur # rest) t = cursor_loop rest ?t1"
    by (simp add: and_then_def)
  have "served ?t1 = None" by simp
  then have "\<exists>t'. cursor_loop rest ?t1 = Inr t' \<and> served t' = None" by (rule Cons.IH)
  with step show ?case by simp
qed

lemma deleteDeck_no_fault: "fst (deleteDeck None s ident) = Inr ()"
proof -
  let ?s1 = "s\<lparr>decks := filter (\<lambda>d. d_id d \<noteq> ident) (decks s)\<rparr>"
  let ?t1 = "\<lparr>view = ?s1, served = None\<rparr>"
  have a: "request (decks_delete ident) (transaction s None) = Inr ?t1"
    by (simp add: request_def decks_delete_def transaction_def)
  have b: "request read_only ?t1 = Inr ?t1" by (simp add: request_def read_only_def)
  from a b have step: "deleteDeck None s ident = txDone s (cursor_loop (by_deck ident ?s1) ?t1)"
    by (simp add: deleteDeck_def and_then_def)
  have "served ?t1 = None" by simp
  then have "\<exists>t'. cursor_loop (by_deck ident ?s1) ?t1 = Inr t' \<and> served t' = None"
    by (rule cursor_loop_no_fault)
  then obtain t' where "cursor_loop (by_deck ident ?s1) ?t1 = Inr t'" "served t' = None"
    by (elim exE conjE)
  with step show ?thesis by (simp add: txDone_def)
qed

lemma by_deck_removed:
  assumes "c \<in> set (filter (\<lambda>c. c_id c \<notin> c_id ` set (by_deck ident s)) (cards s))"
  shows "deckId c \<noteq> ident"
proof
  assume "deckId c = ident"
  moreover from assms have "c \<in> set (cards s)" by simp
  ultimately have "c \<in> set (by_deck ident s)" by (simp add: by_deck_def)
  then have "c_id c \<in> c_id ` set (by_deck ident s)" by (rule imageI)
  with assms show False by simp
qed

text \<open>
  C1. For every deck id, every database (also one where the deck has cards) and every
  injected storage failure, \<open>deleteDeck\<close> has one of two outcomes. Either it resolves, and
  then no card with that \<open>deckId\<close> remains, the deck record is gone, and exactly the
  records reached through the \<open>by_deck\<close> index were removed from the cards store. Or it
  rejects, and then the database is exactly as before: no part of the deletion is
  visible. Without an injected failure it resolves.
\<close>

theorem deleteDeck_all_or_nothing:
  "((fst (deleteDeck fault s ident) = Inr ()
      \<and> (\<forall>c \<in> set (cards (snd (deleteDeck fault s ident))). deckId c \<noteq> ident)
      \<and> decks (snd (deleteDeck fault s ident)) = filter (\<lambda>d. d_id d \<noteq> ident) (decks s)
      \<and> cards (snd (deleteDeck fault s ident))
          = filter (\<lambda>c. c_id c \<notin> c_id ` set (by_deck ident s)) (cards s))
    \<or> deleteDeck fault s ident = (Inl TransactionAborted, s))
   \<and> (fault = None \<longrightarrow> fst (deleteDeck fault s ident) = Inr ())"
proof (rule conjI)
  show "fault = None \<longrightarrow> fst (deleteDeck fault s ident) = Inr ()"
    using deleteDeck_no_fault [of s ident] by simp
  show "(fst (deleteDeck fault s ident) = Inr ()
      \<and> (\<forall>c \<in> set (cards (snd (deleteDeck fault s ident))). deckId c \<noteq> ident)
      \<and> decks (snd (deleteDeck fault s ident)) = filter (\<lambda>d. d_id d \<noteq> ident) (decks s)
      \<and> cards (snd (deleteDeck fault s ident))
          = filter (\<lambda>c. c_id c \<notin> c_id ` set (by_deck ident s)) (cards s))
    \<or> deleteDeck fault s ident = (Inl TransactionAborted, s)"
  proof (cases rule: deleteDeck_cases [of fault s ident])
    case 1
    then show ?thesis by (rule disjI2)
  next
    case (2 s')
    have "\<forall>c \<in> set (cards s'). deckId c \<noteq> ident"
      unfolding 2(3) using by_deck_removed by blast
    with 2 show ?thesis by simp
  qed
qed

theorem deleteDeck_all_or_nothing_witness:
  "fst (deleteDeck None storeA ''d1'') = Inr ()
   \<and> by_deck ''d1'' (snd (deleteDeck None storeA ''d1'')) = []
   \<and> length (by_deck ''d1'' storeA) = 2
   \<and> deleteDeck (Some 4) storeA ''d1'' = (Inl TransactionAborted, storeA)"
proof -
  have n: "deleteDeck None storeA ''d1'' \<noteq> (Inl TransactionAborted, storeA)"
    using deleteDeck_no_fault [of storeA "''d1''"] by (cases "deleteDeck None storeA ''d1''") auto
  have l: "length (by_deck ''d1'' storeA) = 2"
    by (simp add: by_deck_def storeA_def cardsA_def card0_def card1_def card2_def)
  have k: "fst (deleteDeck (Some 4) storeA ''d1'') \<noteq> Inr ()"
    by (simp add: deleteDeck_def transaction_def request_def decks_delete_def read_only_def
        by_deck_def and_then_def cards_delete_def txDone_def
        storeA_def cardsA_def card0_def card1_def card2_def)
  from deleteDeck_all_or_nothing [of None storeA "''d1''"] n
  have 1: "fst (deleteDeck None storeA ''d1'') = Inr ()"
    and 2: "\<forall>c \<in> set (cards (snd (deleteDeck None storeA ''d1''))). deckId c \<noteq> ''d1''"
    by blast+
  from 2 have 3: "by_deck ''d1'' (snd (deleteDeck None storeA ''d1'')) = []"
    by (simp add: by_deck_def filter_empty_conv)
  from deleteDeck_all_or_nothing [of "Some 4" storeA "''d1''"] k
  have 4: "deleteDeck (Some 4) storeA ''d1'' = (Inl TransactionAborted, storeA)" by blast
  from 1 3 l 4 show ?thesis by (simp only: simp_thms)
qed

lemma single_request:
  assumes "f s = Inr s'"
  obtains "txDone s (request f (transaction s fault)) = (Inl TransactionAborted, s)"
      and "fault \<noteq> None"
  | "txDone s (request f (transaction s fault)) = (Inr (), s')"
proof (cases fault)
  case None
  with assms have "txDone s (request f (transaction s fault)) = (Inr (), s')"
    by (simp add: txDone_def request_def transaction_def)
  then show ?thesis by (rule that(2))
next
  case (Some k)
  show ?thesis
  proof (cases k)
    case 0
    with Some have "txDone s (request f (transaction s fault)) = (Inl TransactionAborted, s)"
      by (simp add: txDone_def request_def transaction_def)
    then show ?thesis using Some by (intro that(1)) simp_all
  next
    case (Suc j)
    show ?thesis
    proof (cases j)
      case 0
      with Suc Some assms
      have "txDone s (request f (transaction s fault)) = (Inl TransactionAborted, s)"
        by (simp add: txDone_def request_def transaction_def)
      then show ?thesis using Some by (intro that(1)) simp_all
    next
      case (Suc i)
      with \<open>k = Suc j\<close> Some assms
      have "txDone s (request f (transaction s fault)) = (Inr (), s')"
        by (simp add: txDone_def request_def transaction_def)
      then show ?thesis by (rule that(2))
    qed
  qed
qed

lemma cards_get_None_iff: "cards_get k s = None \<longleftrightarrow> k \<notin> c_id ` set (cards s)"
  by (auto simp: cards_get_def find_None_iff)

lemma cards_get_Some_id: "cards_get k s = Some c \<Longrightarrow> c_id c = k \<and> c \<in> set (cards s)"
  by (auto simp: cards_get_def find_Some_iff)

lemma find_replace:
  "find (\<lambda>x. c_id x = k) (map (\<lambda>x. if c_id x = c_id c then c else x) xs)
   = (if k = c_id c then (if c_id c \<in> c_id ` set xs then Some c else None)
      else find (\<lambda>x. c_id x = k) xs)"
  by (induction xs) auto

lemma find_snoc:
  "find P (xs @ [y]) = (case find P xs of None \<Rightarrow> (if P y then Some y else None) | Some x \<Rightarrow> Some x)"
  by (induction xs) auto

lemma cards_put_result:
  obtains s' where "cards_put c s = Inr s'"
    and "decks s' = decks s"
    and "\<And>k. cards_get k s' = (if k = c_id c then Some c else cards_get k s)"
    and "c_id c \<notin> c_id ` set (cards s) \<Longrightarrow> cards s' = cards s @ [c]"
proof (cases "cards_get (c_id c) s")
  case None
  let ?s' = "s\<lparr>cards := cards s @ [c]\<rparr>"
  have 1: "cards_put c s = Inr ?s'" using None by (simp add: cards_put_def)
  have 2: "\<And>k. cards_get k ?s' = (if k = c_id c then Some c else cards_get k s)"
    using None by (auto simp: cards_get_def find_snoc split: option.splits)
  show ?thesis by (rule that [of ?s']) (simp_all add: 1 2)
next
  case (Some old)
  let ?s' = "s\<lparr>cards := map (\<lambda>x. if c_id x = c_id c then c else x) (cards s)\<rparr>"
  have 1: "cards_put c s = Inr ?s'" using Some by (simp add: cards_put_def)
  from Some have "c_id c \<in> c_id ` set (cards s)" using cards_get_None_iff [of "c_id c" s] by simp
  then have 2: "\<And>k. cards_get k ?s' = (if k = c_id c then Some c else cards_get k s)"
    by (simp add: cards_get_def find_replace)
  show ?thesis
  proof (rule that [of ?s'])
    show "cards_put c s = Inr ?s'" by (rule 1)
    show "decks ?s' = decks s" by simp
    show "\<And>k. cards_get k ?s' = (if k = c_id c then Some c else cards_get k s)" by (rule 2)
    show "c_id c \<notin> c_id ` set (cards s) \<Longrightarrow> cards ?s' = cards s @ [c]"
      using \<open>c_id c \<in> c_id ` set (cards s)\<close> by simp
  qed
qed

text \<open>
  C5, as stated, fails: on the empty database \<open>putCard\<close> of a card with an unknown id
  resolves and the card is in the database afterwards.
\<close>

theorem putCard_counterexample:
  "c_id card0 \<notin> c_id ` set (cards store0)
   \<and> fst (putCard None store0 card0) = Inr ()
   \<and> snd (putCard None store0 card0) = \<lparr>decks = [], cards = [card0]\<rparr>
   \<and> snd (putCard None store0 card0) \<noteq> store0"
  by (simp add: putCard_def txDone_def request_def transaction_def cards_put_def cards_get_def
      store0_def)

text \<open>
  C5, as amended. \<open>putCard\<close> never rejects because the id is unknown. When its transaction
  commits, looking the id of the card up gives the card itself, whether or not a record
  with that id existed before; if none existed the card is inserted as a new record.
  All lookups of other ids and the decks are unchanged. When the transaction aborts
  the database is unchanged. Without an injected failure it resolves.
\<close>

theorem putCard_upsert:
  "((fst (putCard fault s c) = Inr ()
      \<and> cards_get (c_id c) (snd (putCard fault s c)) = Some c
      \<and> (\<forall>k. k \<noteq> c_id c \<longrightarrow> cards_get k (snd (putCard fault s c)) = cards_get k s)
      \<and> decks (snd (putCard fault s c)) = decks s
      \<and> (c_id c \<notin> c_id ` set (cards s) \<longrightarrow> cards (snd (putCard fault s c)) = cards s @ [c]))
    \<or> putCard fault s c = (Inl TransactionAborted, s))
   \<and> (fault = None \<longrightarrow> fst (putCard fault s c) = Inr ())"
proof (rule cards_put_result [of c s])
  fix s' assume p: "cards_put c s = Inr s'" "decks s' = decks s"
    "\<And>k. cards_get k s' = (if k = c_id c then Some c else cards_get k s)"
    "c_id c \<notin> c_id ` set (cards s) \<Longrightarrow> cards s' = cards s @ [c]"
  from p(1) show ?thesis
  proof (cases rule: single_request [where fault = fault])
    case 1
    then show ?thesis by (auto simp: putCard_def)
  next
    case 2
    then have "putCard fault s c = (Inr (), s')" by (simp add: putCard_def)
    with p(2,3,4) show ?thesis by auto
  qed
qed

theorem putCard_upsert_witness:
  "c_id card0 \<notin> c_id ` set (cards store0)
   \<and> fst (putCard None store0 card0) = Inr ()
   \<and> cards_get (c_id card0) (snd (putCard None store0 card0)) = Some card0
   \<and> cards (snd (putCard None store0 card0)) = cards store0 @ [card0]"
proof -
  have a: "c_id card0 \<notin> c_id ` set (cards store0)" by (simp add: store0_def)
  have b: "None = (None :: nat option)" by simp
  from putCard_upsert [of None store0 card0] a b show ?thesis by auto
qed

text \<open>
  C10. If no card has the id, \<open>deleteCard\<close> leaves the database unchanged; it never
  rejects for the missing id (the only rejection is an aborted transaction), and without
  an injected storage failure it resolves.
\<close>

theorem deleteCard_absent:
  assumes "cardId \<notin> c_id ` set (cards s)"
  shows "snd (deleteCard fault s cardId) = s
       \<and> (fst (deleteCard fault s cardId) = Inr ()
            \<or> fst (deleteCard fault s cardId) = Inl TransactionAborted)
       \<and> (fault = None \<longrightarrow> fst (deleteCard fault s cardId) = Inr ())"
proof -
  from assms have "filter (\<lambda>c. c_id c \<noteq> cardId) (cards s) = cards s"
    by (auto simp: filter_id_conv)
  then have "cards_delete cardId s = Inr s" by (simp add: cards_delete_def)
  then show ?thesis
  proof (cases rule: single_request [where fault = fault])
    case 1
    then show ?thesis by (auto simp: deleteCard_def)
  next
    case 2
    then show ?thesis by (auto simp: deleteCard_def)
  qed
qed

theorem deleteCard_absent_witness:
  "''zz'' \<notin> c_id ` set (cards storeA)
   \<and> deleteCard None storeA ''zz'' = (Inr (), storeA)"
proof -
  have a: "''zz'' \<notin> c_id ` set (cards storeA)"
    by (simp add: storeA_def cardsA_def card0_def card1_def card2_def)
  from deleteCard_absent [OF a, of None] a show ?thesis
    by (cases "deleteCard None storeA ''zz''") auto
qed

lemma uid_env0: "uid env0 = ''8-3e8''"
  by (simp add: uid_def env0_def hex0_def)

lemma uid_env0_fresh: "uid env0 \<notin> c_id ` set (cards storeA)"
  by (simp add: uid_env0 storeA_def cardsA_def card0_def card1_def card2_def)

lemma trim_blank: "trim [] = []" "trim ''  '' = []"
  by (simp_all add: trim_def is_space_def)

lemma trim_fieldsA: "trim '' the tree'' = ''the tree''" "trim ''Baum '' = ''Baum''"
  by (simp_all add: trim_def is_space_def)

lemma addCard_cases:
  obtains (stored) "uid e \<notin> c_id ` set (cards s)"
      and "addCard e fault s dk f = (Inr (new_card e dk f), s\<lparr>cards := cards s @ [new_card e dk f]\<rparr>)"
  | (aborted) "addCard e fault s dk f = (Inl TransactionAborted, s)" and "fault \<noteq> None"
  | (taken) "uid e \<in> c_id ` set (cards s)"
      and "addCard e fault s dk f = (Inl ConstraintError, s)"
proof (cases "uid e \<in> c_id ` set (cards s)")
  case True
  then have "cards_get (c_id (new_card e dk f)) s \<noteq> None"
    by (simp add: cards_get_None_iff new_card_def)
  then have ce: "cards_add (new_card e dk f) s = Inl ConstraintError"
    by (auto simp: cards_add_def)
  show ?thesis
  proof (cases fault)
    case None
    with ce have "addCard e fault s dk f = (Inl ConstraintError, s)"
      by (simp add: addCard_def Let_def txDone_def request_def transaction_def)
    with True show ?thesis by (rule taken)
  next
    case (Some k)
    show ?thesis
    proof (cases k)
      case 0
      with Some have "addCard e fault s dk f = (Inl TransactionAborted, s)"
        by (simp add: addCard_def Let_def txDone_def request_def transaction_def)
      moreover from Some have "fault \<noteq> None" by simp
      ultimately show ?thesis by (rule aborted)
    next
      case (Suc j)
      with Some ce have "addCard e fault s dk f = (Inl ConstraintError, s)"
        by (simp add: addCard_def Let_def txDone_def request_def transaction_def)
      with True show ?thesis by (rule taken)
    qed
  qed
next
  case False
  then have "cards_get (c_id (new_card e dk f)) s = None"
    by (simp add: cards_get_None_iff new_card_def)
  then have "cards_add (new_card e dk f) s = Inr (s\<lparr>cards := cards s @ [new_card e dk f]\<rparr>)"
    by (simp add: cards_add_def)
  then show ?thesis
  proof (cases rule: single_request [where fault = fault])
    case 1
    then have "addCard e fault s dk f = (Inl TransactionAborted, s)"
      by (simp add: addCard_def Let_def)
    then show ?thesis using 1(2) by (rule aborted)
  next
    case 2
    then have "addCard e fault s dk f
        = (Inr (new_card e dk f), s\<lparr>cards := cards s @ [new_card e dk f]\<rparr>)"
      by (simp add: addCard_def Let_def)
    with False show ?thesis by (rule stored)
  qed
qed

lemma addCard_no_fault:
  assumes "uid e \<notin> c_id ` set (cards s)"
  shows "addCard e None s dk f = (Inr (new_card e dk f), s\<lparr>cards := cards s @ [new_card e dk f]\<rparr>)"
proof (cases rule: addCard_cases [of e s None dk f])
  case stored
  then show ?thesis by simp
next
  case aborted
  then show ?thesis by simp
next
  case taken
  with assms show ?thesis by simp
qed

text \<open>
  C4, as stated, fails: \<open>addCard\<close> resolves with a new card when \<open>english\<close> and \<open>german\<close>
  are empty after trimming, and also when \<open>deckId\<close> names no deck of the database.
\<close>

theorem addCard_counterexample:
  "trim (f_english fieldsBlank) = [] \<and> trim (f_german fieldsBlank) = []
   \<and> ''d1'' \<in> d_id ` set (decks storeA)
   \<and> fst (addCard env0 None storeA ''d1'' fieldsBlank) = Inr (new_card env0 ''d1'' fieldsBlank)
   \<and> trim (f_english fieldsA) \<noteq> [] \<and> trim (f_german fieldsA) \<noteq> []
   \<and> ''nodeck'' \<notin> d_id ` set (decks storeA)
   \<and> fst (addCard env0 None storeA ''nodeck'' fieldsA) = Inr (new_card env0 ''nodeck'' fieldsA)"
proof -
  have 1: "trim (f_english fieldsBlank) = []" "trim (f_german fieldsBlank) = []"
    by (simp_all add: fieldsBlank_def trim_blank)
  have 2: "trim (f_english fieldsA) \<noteq> []" "trim (f_german fieldsA) \<noteq> []"
    by (simp_all add: fieldsA_def trim_fieldsA)
  have 3: "''d1'' \<in> d_id ` set (decks storeA)" "''nodeck'' \<notin> d_id ` set (decks storeA)"
    by (simp_all add: storeA_def)
  have 4: "fst (addCard env0 None storeA ''d1'' fieldsBlank) = Inr (new_card env0 ''d1'' fieldsBlank)"
    by (simp only: addCard_no_fault [OF uid_env0_fresh] fst_conv)
  have 5: "fst (addCard env0 None storeA ''nodeck'' fieldsA) = Inr (new_card env0 ''nodeck'' fieldsA)"
    by (simp only: addCard_no_fault [OF uid_env0_fresh] fst_conv)
  show ?thesis using 1 2 3 4 5 by (simp only: simp_thms)
qed

text \<open>
  C4, as amended. \<open>addCard\<close> does not validate the fields and does not look the deck up.
  The card it builds has the trimmed texts, the given \<open>deckId\<close> and the review state
  \<open>due = now\<close> (the clock reading of \<open>defaultSRS\<close>), \<open>intervalDays = 0\<close>, \<open>ease = 2.3\<close>,
  \<open>reps = 0\<close>, \<open>lapses = 0\<close>. Without an injected storage failure and with a generated
  id that no card has, it stores that card and resolves with it. Whenever it resolves,
  it is with that card, appended to the cards store; whenever it rejects, it is with a
  constraint error or an aborted transaction, and the database is unchanged.
\<close>

theorem addCard_creates:
  "srs (new_card e dk f) = \<lparr>due = dateNow e 2, intervalDays = 0, ease = 2.3, reps = 0, lapses = 0\<rparr>
   \<and> english (new_card e dk f) = trim (f_english f)
   \<and> german (new_card e dk f) = trim (f_german f)
   \<and> deckId (new_card e dk f) = dk
   \<and> (fault = None \<and> uid e \<notin> c_id ` set (cards s) \<longrightarrow>
         addCard e fault s dk f
           = (Inr (new_card e dk f), s\<lparr>cards := cards s @ [new_card e dk f]\<rparr>))
   \<and> (\<forall>c. fst (addCard e fault s dk f) = Inr c \<longrightarrow>
         c = new_card e dk f \<and> snd (addCard e fault s dk f) = s\<lparr>cards := cards s @ [c]\<rparr>)
   \<and> (\<forall>err. fst (addCard e fault s dk f) = Inl err \<longrightarrow>
         (err = ConstraintError \<or> err = TransactionAborted) \<and> snd (addCard e fault s dk f) = s)"
proof -
  have 1: "srs (new_card e dk f) = \<lparr>due = dateNow e 2, intervalDays = 0, ease = 2.3, reps = 0, lapses = 0\<rparr>"
    by (simp add: new_card_def defaultSRS_def)
  have 2: "english (new_card e dk f) = trim (f_english f)"
    "german (new_card e dk f) = trim (f_german f)" "deckId (new_card e dk f) = dk"
    by (simp_all add: new_card_def)
  have 3: "fault = None \<and> uid e \<notin> c_id ` set (cards s) \<longrightarrow>
         addCard e fault s dk f
           = (Inr (new_card e dk f), s\<lparr>cards := cards s @ [new_card e dk f]\<rparr>)"
  proof
    assume "fault = None \<and> uid e \<notin> c_id ` set (cards s)"
    then have f: "fault = None" and u: "uid e \<notin> c_id ` set (cards s)" by simp_all
    show "addCard e fault s dk f
           = (Inr (new_card e dk f), s\<lparr>cards := cards s @ [new_card e dk f]\<rparr>)"
      unfolding f by (rule addCard_no_fault [OF u])
  qed
  have 4: "\<forall>c. fst (addCard e fault s dk f) = Inr c \<longrightarrow>
         c = new_card e dk f \<and> snd (addCard e fault s dk f) = s\<lparr>cards := cards s @ [c]\<rparr>"
  proof (cases rule: addCard_cases [of e s fault dk f])
    case stored
    show ?thesis unfolding stored(2) by simp
  next
    case aborted
    show ?thesis unfolding aborted(1) by simp
  next
    case taken
    show ?thesis unfolding taken(2) by simp
  qed
  have 5: "\<forall>err. fst (addCard e fault s dk f) = Inl err \<longrightarrow>
         (err = ConstraintError \<or> err = TransactionAborted) \<and> snd (addCard e fault s dk f) = s"
  proof (cases rule: addCard_cases [of e s fault dk f])
    case stored
    show ?thesis unfolding stored(2) by simp
  next
    case aborted
    show ?thesis unfolding aborted(1) by simp
  next
    case taken
    show ?thesis unfolding taken(2) by simp
  qed
  show ?thesis using 1 2 3 4 5 by (simp only: simp_thms)
qed

theorem addCard_creates_witness:
  "None = (None :: nat option) \<and> uid env0 \<notin> c_id ` set (cards storeA)
   \<and> addCard env0 None storeA ''nodeck'' fieldsBlank
       = (Inr (new_card env0 ''nodeck'' fieldsBlank),
          storeA\<lparr>cards := cards storeA @ [new_card env0 ''nodeck'' fieldsBlank]\<rparr>)
   \<and> srs (new_card env0 ''nodeck'' fieldsBlank)
       = \<lparr>due = 1000, intervalDays = 0, ease = 2.3, reps = 0, lapses = 0\<rparr>"
proof -
  have a: "uid env0 \<notin> c_id ` set (cards storeA)" by (rule uid_env0_fresh)
  have b: "dateNow env0 2 = 1000" by (simp add: env0_def)
  have c: "None = (None :: nat option)" by simp
  note t = addCard_creates [of env0 "''nodeck''" fieldsBlank None storeA]
  from t have 1: "srs (new_card env0 ''nodeck'' fieldsBlank)
       = \<lparr>due = dateNow env0 2, intervalDays = 0, ease = 2.3, reps = 0, lapses = 0\<rparr>"
    by (rule conjunct1)
  from t have "None = (None :: nat option) \<and> uid env0 \<notin> c_id ` set (cards storeA) \<longrightarrow>
      addCard env0 None storeA ''nodeck'' fieldsBlank
       = (Inr (new_card env0 ''nodeck'' fieldsBlank),
          storeA\<lparr>cards := cards storeA @ [new_card env0 ''nodeck'' fieldsBlank]\<rparr>)"
    by (elim conjE)
  with a c have 2: "addCard env0 None storeA ''nodeck'' fieldsBlank
       = (Inr (new_card env0 ''nodeck'' fieldsBlank),
          storeA\<lparr>cards := cards storeA @ [new_card env0 ''nodeck'' fieldsBlank]\<rparr>)"
    by (simp only: simp_thms)
  from 1 b have 3: "srs (new_card env0 ''nodeck'' fieldsBlank)
       = \<lparr>due = 1000, intervalDays = 0, ease = 2.3, reps = 0, lapses = 0\<rparr>" by (simp only:)
  show ?thesis using a c 2 3 by (simp only: simp_thms)
qed

lemma updateCard_found:
  assumes get: "cards_get cardId s = Some c" and put: "cards_put (set_fields c f) s = Inr s'"
  obtains (aborted) "updateCard fault s cardId f = (Inl TransactionAborted, s)" and "fault \<noteq> None"
  | (updated) "updateCard fault s cardId f = (Inr (set_fields c f), s')"
proof (cases fault)
  case None
  with get put have "updateCard fault s cardId f = (Inr (set_fields c f), s')"
    by (simp add: updateCard_def request_def read_only_def transaction_def txDone_def Let_def)
  then show ?thesis by (rule updated)
next
  case (Some k)
  then have nn: "fault \<noteq> None" by simp
  show ?thesis
  proof (cases k)
    case 0
    with Some have "updateCard fault s cardId f = (Inl TransactionAborted, s)"
      by (simp add: updateCard_def request_def read_only_def transaction_def)
    then show ?thesis using nn by (rule aborted)
  next
    case (Suc k1)
    note k = this
    show ?thesis
    proof (cases k1)
      case 0
      with Some k get have "updateCard fault s cardId f = (Inl TransactionAborted, s)"
        by (simp add: updateCard_def request_def read_only_def transaction_def txDone_def Let_def)
      then show ?thesis using nn by (rule aborted)
    next
      case (Suc k2)
      note k1 = this
      show ?thesis
      proof (cases k2)
        case 0
        with Some k k1 get put have "updateCard fault s cardId f = (Inl TransactionAborted, s)"
          by (simp add: updateCard_def request_def read_only_def transaction_def txDone_def Let_def)
        then show ?thesis using nn by (rule aborted)
      next
        case (Suc k3)
        with Some k k1 get put have "updateCard fault s cardId f = (Inr (set_fields c f), s')"
          by (simp add: updateCard_def request_def read_only_def transaction_def txDone_def Let_def)
        then show ?thesis by (rule updated)
      qed
    qed
  qed
qed

lemma updateCard_missing:
  assumes "cards_get cardId s = None"
  shows "(fault \<noteq> Some 0 \<and> updateCard fault s cardId f = (Inl CardNotFound, s))
       \<or> (fault = Some 0 \<and> updateCard fault s cardId f = (Inl TransactionAborted, s))"
proof (cases fault)
  case None
  with assms show ?thesis
    by (simp add: updateCard_def request_def read_only_def transaction_def)
next
  case (Some k)
  with assms show ?thesis
    by (cases k) (simp_all add: updateCard_def request_def read_only_def transaction_def)
qed

lemma set_fields_frame:
  "srs (set_fields c f) = srs c" "c_id (set_fields c f) = c_id c"
  "deckId (set_fields c f) = deckId c" "createdAt (set_fields c f) = createdAt c"
  by (simp_all add: set_fields_def)

lemma set_fields_texts:
  "english (set_fields c f) = trim (f_english f)"
  "german (set_fields c f) = trim (f_german f)"
  "article (set_fields c f) = trim (or_empty (f_article f))"
  "plural (set_fields c f) = trim (or_empty (f_plural f))"
  "example (set_fields c f) = trim (or_empty (f_example f))"
  "c_notes (set_fields c f) = trim (or_empty (f_notes f))"
  by (simp_all add: set_fields_def)

text \<open>
  C9. If no card has the id, \<open>updateCard\<close> rejects and the database is unchanged; the
  rejection is "Card not found" unless the read itself failed, and it is "Card not found"
  without an injected failure. If a card has the id, \<open>updateCard\<close> either rejects with an
  aborted transaction and leaves the database unchanged, or resolves with a card whose
  six text fields are the trimmed entries of \<open>fields\<close> and whose \<open>srs\<close>, \<open>id\<close>, \<open>deckId\<close> and
  \<open>createdAt\<close> are those of the stored card; that card is then stored under the id, and
  the lookups of all other ids and the decks are unchanged. Without an injected failure
  it resolves.
\<close>

theorem updateCard_fields:
  "(cards_get cardId s = None \<longrightarrow>
      snd (updateCard fault s cardId f) = s
      \<and> (fst (updateCard fault s cardId f) = Inl CardNotFound
           \<or> fst (updateCard fault s cardId f) = Inl TransactionAborted)
      \<and> (fault = None \<longrightarrow> fst (updateCard fault s cardId f) = Inl CardNotFound))
   \<and> (\<forall>c. cards_get cardId s = Some c \<longrightarrow>
        (updateCard fault s cardId f = (Inl TransactionAborted, s) \<and> fault \<noteq> None)
        \<or> (\<exists>c'. fst (updateCard fault s cardId f) = Inr c'
              \<and> english c' = trim (f_english f) \<and> german c' = trim (f_german f)
              \<and> article c' = trim (or_empty (f_article f))
              \<and> plural c' = trim (or_empty (f_plural f))
              \<and> example c' = trim (or_empty (f_example f))
              \<and> c_notes c' = trim (or_empty (f_notes f))
              \<and> srs c' = srs c \<and> c_id c' = c_id c \<and> deckId c' = deckId c
              \<and> createdAt c' = createdAt c
              \<and> cards_get cardId (snd (updateCard fault s cardId f)) = Some c'
              \<and> (\<forall>k. k \<noteq> cardId \<longrightarrow>
                    cards_get k (snd (updateCard fault s cardId f)) = cards_get k s)
              \<and> decks (snd (updateCard fault s cardId f)) = decks s))"
proof (intro conjI impI allI)
  assume n: "cards_get cardId s = None"
  from updateCard_missing [OF n, of fault f]
  show "snd (updateCard fault s cardId f) = s" by auto
  from updateCard_missing [OF n, of fault f]
  show "fst (updateCard fault s cardId f) = Inl CardNotFound
           \<or> fst (updateCard fault s cardId f) = Inl TransactionAborted" by auto
  assume "fault = None"
  with updateCard_missing [OF n, of fault f]
  show "fst (updateCard fault s cardId f) = Inl CardNotFound" by auto
next
  fix c assume g: "cards_get cardId s = Some c"
  then have idc: "c_id c = cardId" by (simp add: cards_get_Some_id)
  show "(updateCard fault s cardId f = (Inl TransactionAborted, s) \<and> fault \<noteq> None)
        \<or> (\<exists>c'. fst (updateCard fault s cardId f) = Inr c'
              \<and> english c' = trim (f_english f) \<and> german c' = trim (f_german f)
              \<and> article c' = trim (or_empty (f_article f))
              \<and> plural c' = trim (or_empty (f_plural f))
              \<and> example c' = trim (or_empty (f_example f))
              \<and> c_notes c' = trim (or_empty (f_notes f))
              \<and> srs c' = srs c \<and> c_id c' = c_id c \<and> deckId c' = deckId c
              \<and> createdAt c' = createdAt c
              \<and> cards_get cardId (snd (updateCard fault s cardId f)) = Some c'
              \<and> (\<forall>k. k \<noteq> cardId \<longrightarrow>
                    cards_get k (snd (updateCard fault s cardId f)) = cards_get k s)
              \<and> decks (snd (updateCard fault s cardId f)) = decks s)"
  proof (rule cards_put_result [of "set_fields c f" s])
    fix s' assume p: "cards_put (set_fields c f) s = Inr s'" "decks s' = decks s"
      "\<And>k. cards_get k s' = (if k = c_id (set_fields c f) then Some (set_fields c f) else cards_get k s)"
    from g p(1) show ?thesis
    proof (cases rule: updateCard_found [where fault = fault])
      case aborted
      then show ?thesis by simp
    next
      case updated
      have 3: "cards_get cardId s' = Some (set_fields c f)"
        by (simp add: p(3) set_fields_frame idc)
      have 4: "\<forall>k. k \<noteq> cardId \<longrightarrow> cards_get k s' = cards_get k s"
        by (simp add: p(3) set_fields_frame idc)
      have "\<exists>c'. fst (updateCard fault s cardId f) = Inr c'
              \<and> english c' = trim (f_english f) \<and> german c' = trim (f_german f)
              \<and> article c' = trim (or_empty (f_article f))
              \<and> plural c' = trim (or_empty (f_plural f))
              \<and> example c' = trim (or_empty (f_example f))
              \<and> c_notes c' = trim (or_empty (f_notes f))
              \<and> srs c' = srs c \<and> c_id c' = c_id c \<and> deckId c' = deckId c
              \<and> createdAt c' = createdAt c
              \<and> cards_get cardId (snd (updateCard fault s cardId f)) = Some c'
              \<and> (\<forall>k. k \<noteq> cardId \<longrightarrow>
                    cards_get k (snd (updateCard fault s cardId f)) = cards_get k s)
              \<and> decks (snd (updateCard fault s cardId f)) = decks s"
        unfolding updated using 3 4 p(2)
        by (intro exI [of _ "set_fields c f"]) (simp add: set_fields_texts set_fields_frame)
      then show ?thesis by (rule disjI2)
    qed
  qed
qed

theorem updateCard_fields_witness:
  "cards_get ''zz'' storeA = None \<and> updateCard None storeA ''zz'' fieldsA = (Inl CardNotFound, storeA)
   \<and> cards_get ''c2'' storeA = Some card1
   \<and> (\<exists>c'. fst (updateCard None storeA ''c2'' fieldsA) = Inr c'
         \<and> english c' = ''the tree'' \<and> german c' = ''Baum'' \<and> srs c' = srs card1
         \<and> c_id c' = ''c2'' \<and> deckId c' = ''d1''
         \<and> cards_get ''c2'' (snd (updateCard None storeA ''c2'' fieldsA)) = Some c')"
proof -
  have a: "cards_get ''zz'' storeA = None"
    by (simp add: cards_get_def storeA_def cardsA_def card0_def card1_def card2_def)
  have b: "cards_get ''c2'' storeA = Some card1"
    by (simp add: cards_get_def storeA_def cardsA_def card0_def card1_def card2_def)
  have n: "None = (None :: nat option)" by simp
  have t: "trim (f_english fieldsA) = ''the tree''" "trim (f_german fieldsA) = ''Baum''"
    by (simp_all add: fieldsA_def trim_fieldsA)
  have i: "c_id card1 = ''c2''" "deckId card1 = ''d1''" by (simp_all add: card1_def)
  from updateCard_fields [of "''zz''" storeA None fieldsA] a n
  have 1: "updateCard None storeA ''zz'' fieldsA = (Inl CardNotFound, storeA)"
    by (cases "updateCard None storeA ''zz'' fieldsA") auto
  from updateCard_fields [of "''c2''" storeA None fieldsA] b n i
  have 2: "\<exists>c'. fst (updateCard None storeA ''c2'' fieldsA) = Inr c'
         \<and> english c' = ''the tree'' \<and> german c' = ''Baum'' \<and> srs c' = srs card1
         \<and> c_id c' = ''c2'' \<and> deckId c' = ''d1''
         \<and> cards_get ''c2'' (snd (updateCard None storeA ''c2'' fieldsA)) = Some c'"
    unfolding t by auto
  from a b 1 2 show ?thesis by (simp only: simp_thms)
qed

section \<open>Study session: properties\<close>

text \<open>
  C8. In gender mode with \<open>genderAnswered = false\<close>, \<open>gradeCurrent\<close> does nothing: the
  study state (current card, queue, done counter and the rest) and the database are
  unchanged, and no error is raised, for every grade, clock and injected failure.
\<close>

theorem gradeCurrent_gender_unanswered:
  assumes "mode (study a) = ''gender''" and "\<not> genderAnswered (study a)"
  shows "gradeCurrent e fault a g = (None, a)"
  using assms by (simp add: gradeCurrent_def Let_def)

theorem gradeCurrent_gender_unanswered_witness:
  "mode (study appA) = ''gender'' \<and> \<not> genderAnswered (study appA)
   \<and> gradeCurrent env0 None appA ''good'' = (None, appA)"
proof -
  have a: "mode (study appA) = ''gender''" by (simp add: appA_def)
  have b: "\<not> genderAnswered (study appA)" by (simp add: appA_def)
  from gradeCurrent_gender_unanswered [OF a b] a b show ?thesis by blast
qed

end
